theory Spec2Isabelle
  imports Main "HOL-Library.Sublist"
begin

section \<open>Data model (types/IProduct.ts, types/IForm.ts)\<close>

text \<open>
  The interfaces of the two type modules become records.  A JavaScript \<open>number\<close> is
  modelled as an \<open>int\<close> (the only arithmetic of the program is \<open>itemCount++\<close> on a
  count that starts at 1, exact on numbers below \<open>2^53\<close>); \<open>number | null\<close> and an
  optional field become an \<open>option\<close>.  The field \<open>id\<close> is written \<open>id'\<close>, since
  \<open>id\<close> is the identity function of HOL.
\<close>

record IProduct =
  id' :: string
  description :: string
  image :: string
  title :: string
  category :: string
  price :: "int option"

record IProductCard =
  product :: IProduct
  buttonText :: "string option"
  itemCount :: int

record IOrderDetails =
  payment :: string
  address :: string

record IContactInfo =
  email :: string
  phone :: string

text \<open>
  \<open>AppEventMap\<close>: the closed catalog of event names, and the payload each of them
  carries.  \<open>PVoid\<close> is the \<open>undefined\<close> payload of \<open>modal:close\<close>.
\<close>

datatype event =
  ProductAdd | ProductRemove | ProductView | BasketUpdate | OrderInit | OrderSubmit | ModalClose

datatype payload =
  PProduct IProduct
| PBasket "IProductCard list"
| POrderDetails IOrderDetails
| PContactInfo IContactInfo
| PVoid

section \<open>The event bus (class EventDispatcher)\<close>

text \<open>
  A callback is a JavaScript function object; \<open>unsubscribe\<close> compares callbacks by
  reference (\<open>cb !== callback\<close>), so a callback is modelled by its identity, a number.
  What the function does when called is looked up in a table of handler bodies, see
  \<open>exec\<close> below.

  The private field \<open>eventListeners\<close> maps an event name to an array object, or to
  nothing (\<open>undefined\<close>).  Arrays are mutable objects: \<open>push\<close> changes an array in
  place, \<open>filter\<close> builds a new one, and \<open>forEach\<close> keeps reading the array object it
  was called on, whatever \<open>eventListeners\<close> points to by then.  The model therefore
  keeps the arrays in a store: \<open>arrays\<close> maps an address to the contents of the array
  that lives there, and \<open>fresh\<close> is the next address never used so far.  The field
  \<open>env\<close> is the state that the callbacks close over (the fields of the
  controllers, for this program).
\<close>

type_synonym hid = nat
type_synonym addr = nat

record 's world =
  eventListeners :: "event \<Rightarrow> addr option"
  arrays :: "addr \<Rightarrow> hid list"
  fresh :: addr
  env :: 's

text \<open>\<open>new EventDispatcher()\<close>: \<open>eventListeners = {}\<close>.\<close>

definition new_world :: "'s \<Rightarrow> 's world" where
  "new_world s = \<lparr>eventListeners = (\<lambda>_. None), arrays = (\<lambda>_. []), fresh = 0, env = s\<rparr>"

text \<open>An array literal or the result of \<open>filter\<close>: a new array object at a new address.\<close>

definition new_array :: "hid list \<Rightarrow> 's world \<Rightarrow> addr \<times> 's world" where
  "new_array xs w = (fresh w, w\<lparr>arrays := (arrays w)(fresh w := xs), fresh := Suc (fresh w)\<rparr>)"

text \<open>\<open>Array.prototype.push\<close>: the array at address \<open>a\<close> grows in place.\<close>

definition push :: "addr \<Rightarrow> hid \<Rightarrow> 's world \<Rightarrow> 's world" where
  "push a x w = w\<lparr>arrays := (arrays w)(a := arrays w a @ [x])\<rparr>"

text \<open>
  \<^verbatim>\<open>subscribe(event, callback) {
    if (!this.eventListeners[event]) { this.eventListeners[event] = []; }
    this.eventListeners[event]!.push(callback);
  }\<close>
  An array is truthy even when it is empty, so the test is on \<open>undefined\<close> alone.  The
  last \<open>None\<close> branch is the non-null assertion \<open>!\<close>; it is never taken.
\<close>

definition subscribe :: "event \<Rightarrow> hid \<Rightarrow> 's world \<Rightarrow> 's world" where
  "subscribe event callback w =
     (let w1 = (case eventListeners w event of
                  None \<Rightarrow> (let (a, w') = new_array [] w
                           in w'\<lparr>eventListeners := (eventListeners w')(event \<mapsto> a)\<rparr>)
                | Some _ \<Rightarrow> w)
      in case eventListeners w1 event of
           Some a \<Rightarrow> push a callback w1
         | None \<Rightarrow> w1)"

text \<open>
  \<^verbatim>\<open>unsubscribe(event, callback) {
    const listeners = this.eventListeners[event];
    if (listeners) {
      this.eventListeners[event] = listeners.filter(cb => cb !== callback);
    }
  }\<close>
\<close>

definition unsubscribe :: "event \<Rightarrow> hid \<Rightarrow> 's world \<Rightarrow> 's world" where
  "unsubscribe event callback w =
     (case eventListeners w event of
        None \<Rightarrow> w
      | Some listeners \<Rightarrow>
          (let (a, w') = new_array (filter (\<lambda>cb. cb \<noteq> callback) (arrays w listeners)) w
           in w'\<lparr>eventListeners := (eventListeners w')(event \<mapsto> a)\<rparr>))"

subsection \<open>Callbacks\<close>

text \<open>
  A callback is arbitrary code that may read and write the state it closes over, call
  the three methods of the bus (also \<open>dispatch\<close>, re-entrantly), return, or throw.  Its
  body is a tree of these actions, each with its continuation.  The program has no
  \<open>try\<close>/\<open>catch\<close>, and neither has this language: a \<open>Throw\<close> unwinds every caller.
\<close>

datatype 's prog =
  Return
| Throw string
| Get "'s \<Rightarrow> 's prog"
| Put 's "'s prog"
| Subscribe event hid "'s prog"
| Unsubscribe event hid "'s prog"
| Dispatch event payload "'s prog"

text \<open>
  Results.  A call either returns (\<open>Inr\<close>, with the world it leaves) or throws (\<open>Inl\<close>,
  with the exception and the world at the throw: JavaScript does not roll back).  A
  chain of nested dispatches may never end, so \<open>dispatch\<close> takes fuel, a bound on the
  depth of the \<open>dispatch\<close> calls open at one time (the call itself counts for one),
  and \<open>None\<close> is "out of fuel".  The result of
  \<open>forEach\<close> and of \<open>dispatch\<close> carries one more component that the program does
  not have: the list of the callbacks that this very loop called, in call order.
\<close>

type_synonym 's res = "(string \<times> 's world) + 's world"
type_synonym 's dres = "(string \<times> 's world \<times> hid list) + ('s world \<times> hid list)"

definition called :: "hid \<Rightarrow> 's dres option \<Rightarrow> 's dres option" where
  "called cb r =
     (case r of
        None \<Rightarrow> None
      | Some (Inl (x, w, cs)) \<Rightarrow> Some (Inl (x, w, cb # cs))
      | Some (Inr (w, cs)) \<Rightarrow> Some (Inr (w, cb # cs)))"

text \<open>
  \<open>Array.prototype.forEach\<close> (ECMAScript 23.1.3.15) on the array at address \<open>O'\<close>:
  the length is read once, before the loop (\<open>n\<close> counts the indices still to visit);
  at each index \<open>k\<close> the element is read from the array as it is then, if the index is
  still present, and the callback is called on it.  An exception leaves the loop.
\<close>

primrec forEach ::
  "(hid \<Rightarrow> 's world \<Rightarrow> 's res option) \<Rightarrow> addr \<Rightarrow> nat \<Rightarrow> nat \<Rightarrow> 's world \<Rightarrow> 's dres option" where
  "forEach callbackfn O' k 0 w = Some (Inr (w, []))"
| "forEach callbackfn O' k (Suc n) w =
     (if k < length (arrays w O') then
        (case callbackfn (arrays w O' ! k) w of
           None \<Rightarrow> None
         | Some (Inl (x, w')) \<Rightarrow> Some (Inl (x, w', [arrays w O' ! k]))
         | Some (Inr w') \<Rightarrow> called (arrays w O' ! k) (forEach callbackfn O' (Suc k) n w'))
      else forEach callbackfn O' (Suc k) n w)"

text \<open>
  Running the body of a callback.  \<open>D\<close> is what a call of \<open>dispatch\<close> does from
  inside the body.
\<close>

primrec exec ::
  "(event \<Rightarrow> payload \<Rightarrow> 's world \<Rightarrow> 's dres option) \<Rightarrow> 's prog \<Rightarrow> 's world \<Rightarrow> 's res option" where
  "exec D Return w = Some (Inr w)"
| "exec D (Throw x) w = Some (Inl (x, w))"
| "exec D (Get f) w = exec D (f (env w)) w"
| "exec D (Put s c) w = exec D c (w\<lparr>env := s\<rparr>)"
| "exec D (Subscribe e h c) w = exec D c (subscribe e h w)"
| "exec D (Unsubscribe e h c) w = exec D c (unsubscribe e h w)"
| "exec D (Dispatch e p c) w =
     (case D e p w of
        None \<Rightarrow> None
      | Some (Inl (x, w', _)) \<Rightarrow> Some (Inl (x, w'))
      | Some (Inr (w', _)) \<Rightarrow> exec D c w')"

text \<open>
  \<^verbatim>\<open>dispatch(event, payload) {
    this.eventListeners[event]?.forEach(callback => { callback(payload); });
  }\<close>
  \<open>H\<close> is the table of the bodies: \<open>H h p\<close> is what the callback \<open>h\<close> runs on the
  payload \<open>p\<close>.
\<close>

primrec dispatch ::
  "nat \<Rightarrow> (hid \<Rightarrow> payload \<Rightarrow> 's prog) \<Rightarrow> event \<Rightarrow> payload \<Rightarrow> 's world \<Rightarrow> 's dres option" where
  "dispatch 0 H event payload w = None"
| "dispatch (Suc n) H event payload w =
     (case eventListeners w event of
        None \<Rightarrow> Some (Inr (w, []))
      | Some a \<Rightarrow>
          forEach (\<lambda>callback. exec (dispatch n H) (H callback payload)) a 0 (length (arrays w a)) w)"

text \<open>
  The page delivers user gestures one after the other, each a \<open>dispatch\<close> of its own
  from a DOM listener; an exception thrown by one of them ends that gesture only.
\<close>

primrec dispatch_seq ::
  "nat \<Rightarrow> (hid \<Rightarrow> payload \<Rightarrow> 's prog) \<Rightarrow> (event \<times> payload) list \<Rightarrow> 's world \<Rightarrow> 's world option" where
  "dispatch_seq n H [] w = Some w"
| "dispatch_seq n H (m # ms) w =
     (case dispatch n H (fst m) (snd m) w of
        None \<Rightarrow> None
      | Some (Inl (x, w', _)) \<Rightarrow> dispatch_seq n H ms w'
      | Some (Inr (w', _)) \<Rightarrow> dispatch_seq n H ms w')"

section \<open>Object spread\<close>

text \<open>
  \<open>{...a, ...b}\<close> copies the own enumerable properties of \<open>a\<close>, then those of \<open>b\<close>,
  which win where both have the property.  An object is modelled by these properties,
  a map from property names to values.
\<close>

definition spread :: "(string \<rightharpoonup> 'v) \<Rightarrow> (string \<rightharpoonup> 'v) \<Rightarrow> (string \<rightharpoonup> 'v)" where
  "spread a b = a ++ b"

definition IOrderDetails_props :: "IOrderDetails \<Rightarrow> (string \<rightharpoonup> string)" where
  "IOrderDetails_props d = [''payment'' \<mapsto> payment d, ''address'' \<mapsto> address d]"

definition IContactInfo_props :: "IContactInfo \<Rightarrow> (string \<rightharpoonup> string)" where
  "IContactInfo_props c = [''email'' \<mapsto> email c, ''phone'' \<mapsto> phone c]"

section \<open>The controllers\<close>

record CatalogController =
  products :: "IProduct list"
  basket :: "IProductCard list"

record OrderController =
  orderDetails :: "IOrderDetails option"
  contactInfo :: "IContactInfo option"

text \<open>
  What the callbacks of the two controllers close over: the controllers themselves,
  and the console that \<open>initOrder\<close> writes to.
\<close>

record app =
  catalogController :: CatalogController
  orderController :: OrderController
  console :: "IOrderDetails list"

subsection \<open>CatalogController\<close>

text \<open>
  \<open>existingItem.itemCount++\<close> changes, in place, the line that \<open>find\<close> returned: the
  first line of the basket that satisfies the test.
\<close>

primrec increment_first :: "(IProductCard \<Rightarrow> bool) \<Rightarrow> IProductCard list \<Rightarrow> IProductCard list" where
  "increment_first P [] = []"
| "increment_first P (item # items) =
     (if P item then item\<lparr>itemCount := itemCount item + 1\<rparr> # items
      else item # increment_first P items)"

text \<open>
  \<^verbatim>\<open>addToBasket(product) {
    const existingItem = this.basket.find((item) => item.product.id === product.id);
    if (existingItem) { existingItem.itemCount++ }
    else { this.basket.push({ product, itemCount: 1 }); }
    eventDispatcher.dispatch("basket:update", this.basket);
  }\<close>
  \<open>addToBasket_lines\<close> is the basket after the \<open>if\<close>; \<open>addToBasket\<close> is the method.
\<close>

definition addToBasket_lines :: "IProduct \<Rightarrow> IProductCard list \<Rightarrow> IProductCard list" where
  "addToBasket_lines p lines =
     (case find (\<lambda>item. id' (product item) = id' p) lines of
        Some existingItem \<Rightarrow> increment_first (\<lambda>item. id' (product item) = id' p) lines
      | None \<Rightarrow> lines @ [\<lparr>product = p, buttonText = None, itemCount = 1\<rparr>])"

definition addToBasket :: "IProduct \<Rightarrow> app prog" where
  "addToBasket p =
     Get (\<lambda>s. let this = catalogController s;
                  this' = this\<lparr>basket := addToBasket_lines p (basket this)\<rparr>
              in Put (s\<lparr>catalogController := this'\<rparr>)
                   (Dispatch BasketUpdate (PBasket (basket this')) Return))"

text \<open>
  \<^verbatim>\<open>removeFromBasket(product) {
    this.basket = this.basket.filter((item) => item.product.id !== product.id);
    eventDispatcher.dispatch("basket:update", this.basket);
  }\<close>
\<close>

definition removeFromBasket :: "IProduct \<Rightarrow> app prog" where
  "removeFromBasket p =
     Get (\<lambda>s. let this = catalogController s;
                  this' = this\<lparr>basket := filter (\<lambda>item. id' (product item) \<noteq> id' p) (basket this)\<rparr>
              in Put (s\<lparr>catalogController := this'\<rparr>)
                   (Dispatch BasketUpdate (PBasket (basket this')) Return))"

text \<open>\<^verbatim>\<open>updateBasket(items) { this.basket = items; }\<close>\<close>

definition updateBasket :: "IProductCard list \<Rightarrow> app prog" where
  "updateBasket items =
     Get (\<lambda>s. Put (s\<lparr>catalogController := (catalogController s)\<lparr>basket := items\<rparr>\<rparr>) Return)"

text \<open>\<^verbatim>\<open>initOrder(order) { console.log(order); }\<close>\<close>

definition initOrder :: "IOrderDetails \<Rightarrow> app prog" where
  "initOrder order = Get (\<lambda>s. Put (s\<lparr>console := console s @ [order]\<rparr>) Return)"

subsection \<open>OrderController\<close>

text \<open>\<^verbatim>\<open>setOrderDetails(details) { this.orderDetails = details; }\<close>\<close>

definition setOrderDetails :: "IOrderDetails \<Rightarrow> app prog" where
  "setOrderDetails details =
     Get (\<lambda>s. Put (s\<lparr>orderController := (orderController s)\<lparr>orderDetails := Some details\<rparr>\<rparr>) Return)"

text \<open>
  \<^verbatim>\<open>submitOrder(contact) {
    this.contactInfo = contact;
    if (this.orderDetails && this.contactInfo) {
      const finalOrder = { ...this.orderDetails, ...this.contactInfo };
    }
  }\<close>
  An object is truthy, \<open>null\<close> is not.  \<open>finalOrder\<close> is a local constant that nothing
  reads: \<open>submitOrder_finalOrder\<close> is its value, on the controller as it is when the
  test is made, and \<open>None\<close> where the branch is not entered.
\<close>

definition submitOrder_finalOrder :: "OrderController \<Rightarrow> (string \<rightharpoonup> string) option" where
  "submitOrder_finalOrder this =
     (case (orderDetails this, contactInfo this) of
        (Some d, Some c) \<Rightarrow> Some (spread (IOrderDetails_props d) (IContactInfo_props c))
      | _ \<Rightarrow> None)"

definition submitOrder :: "IContactInfo \<Rightarrow> app prog" where
  "submitOrder contact =
     Get (\<lambda>s. let this = (orderController s)\<lparr>contactInfo := Some contact\<rparr>;
                  finalOrder = submitOrder_finalOrder this
              in Put (s\<lparr>orderController := this\<rparr>) Return)"

subsection \<open>The callbacks and their registration\<close>

text \<open>
  \<open>subscribeToEvents\<close> of each controller registers arrow functions that forward to
  its methods.  They are six function objects; the event map types the payload each of
  them receives, so the other payloads do not occur.
\<close>

abbreviation (input) cb_addToBasket :: hid where "cb_addToBasket \<equiv> 0"
abbreviation (input) cb_removeFromBasket :: hid where "cb_removeFromBasket \<equiv> 1"
abbreviation (input) cb_updateBasket :: hid where "cb_updateBasket \<equiv> 2"
abbreviation (input) cb_initOrder :: hid where "cb_initOrder \<equiv> 3"
abbreviation (input) cb_setOrderDetails :: hid where "cb_setOrderDetails \<equiv> 4"
abbreviation (input) cb_submitOrder :: hid where "cb_submitOrder \<equiv> 5"

definition handlers :: "hid \<Rightarrow> payload \<Rightarrow> app prog" where
  "handlers h data =
     (if h = cb_addToBasket then (case data of PProduct p \<Rightarrow> addToBasket p | _ \<Rightarrow> Return)
      else if h = cb_removeFromBasket then (case data of PProduct p \<Rightarrow> removeFromBasket p | _ \<Rightarrow> Return)
      else if h = cb_updateBasket then (case data of PBasket items \<Rightarrow> updateBasket items | _ \<Rightarrow> Return)
      else if h = cb_initOrder then (case data of POrderDetails order \<Rightarrow> initOrder order | _ \<Rightarrow> Return)
      else if h = cb_setOrderDetails then (case data of POrderDetails details \<Rightarrow> setOrderDetails details | _ \<Rightarrow> Return)
      else if h = cb_submitOrder then (case data of PContactInfo contact \<Rightarrow> submitOrder contact | _ \<Rightarrow> Return)
      else Return)"

definition CatalogController_subscribeToEvents :: "app world \<Rightarrow> app world" where
  "CatalogController_subscribeToEvents w =
     subscribe OrderInit cb_initOrder
       (subscribe BasketUpdate cb_updateBasket
         (subscribe ProductRemove cb_removeFromBasket
           (subscribe ProductAdd cb_addToBasket w)))"

definition new_CatalogController :: "app world \<Rightarrow> app world" where
  "new_CatalogController w =
     CatalogController_subscribeToEvents
       (w\<lparr>env := (env w)\<lparr>catalogController := \<lparr>products = [], basket = []\<rparr>\<rparr>\<rparr>)"

definition OrderController_subscribeToEvents :: "app world \<Rightarrow> app world" where
  "OrderController_subscribeToEvents w =
     subscribe OrderSubmit cb_submitOrder (subscribe OrderInit cb_setOrderDetails w)"

definition new_OrderController :: "app world \<Rightarrow> app world" where
  "new_OrderController w =
     OrderController_subscribeToEvents
       (w\<lparr>env := (env w)\<lparr>orderController := \<lparr>orderDetails = None, contactInfo = None\<rparr>\<rparr>\<rparr>)"

text \<open>
  The program as it stands after start-up: the bus, then one controller of each class
  (the catalog controller first).
\<close>

definition boot :: "app world" where
  "boot = new_OrderController (new_CatalogController (new_world
     \<lparr>catalogController = \<lparr>products = [], basket = []\<rparr>,
      orderController = \<lparr>orderDetails = None, contactInfo = None\<rparr>,
      console = []\<rparr>))"

section \<open>The view base class (class BaseView)\<close>

text \<open>
  \<^verbatim>\<open>updateState(newState) {
    this.state = { ...this.state, ...newState };
    this.render();
  }\<close>
  \<open>render\<close> is abstract: \<open>R\<close> is what a concrete view writes to its element, from the
  view as it is.  \<open>rendered\<close> is not a field of the program: it records, for each call
  of \<open>render\<close>, the state the call found.
\<close>

record ('el, 'v) BaseView =
  element :: 'el
  state :: "string \<rightharpoonup> 'v"
  rendered :: "(string \<rightharpoonup> 'v) list"

definition render :: "(('el, 'v) BaseView \<Rightarrow> 'el) \<Rightarrow> ('el, 'v) BaseView \<Rightarrow> ('el, 'v) BaseView" where
  "render R this = this\<lparr>element := R this, rendered := rendered this @ [state this]\<rparr>"

definition updateState ::
  "(('el, 'v) BaseView \<Rightarrow> 'el) \<Rightarrow> (string \<rightharpoonup> 'v) \<Rightarrow> ('el, 'v) BaseView \<Rightarrow> ('el, 'v) BaseView" where
  "updateState R newState this = render R (this\<lparr>state := spread (state this) newState\<rparr>)"

section \<open>Notions used in the statements\<close>

text \<open>The world a call leaves, and the callbacks a \<open>dispatch\<close> called itself.\<close>

definition rworld :: "'s res \<Rightarrow> 's world" where
  "rworld r = (case r of Inl (x, w) \<Rightarrow> w | Inr w \<Rightarrow> w)"

definition dworld :: "'s dres \<Rightarrow> 's world" where
  "dworld r = (case r of Inl (x, w, cs) \<Rightarrow> w | Inr (w, cs) \<Rightarrow> w)"

definition invoked :: "'s dres \<Rightarrow> hid list" where
  "invoked r = (case r of Inl (x, w, cs) \<Rightarrow> cs | Inr (w, cs) \<Rightarrow> cs)"

text \<open>The listeners registered for an event: the contents of its array, if it has one.\<close>

definition listeners_of :: "'s world \<Rightarrow> event \<Rightarrow> hid list" where
  "listeners_of w e = (case eventListeners w e of None \<Rightarrow> [] | Some a \<Rightarrow> arrays w a)"

text \<open>
  \<open>grows w w'\<close>: every array object of \<open>w\<close> is still there in \<open>w'\<close>, with the same
  elements at the same indices and possibly more behind them.  \<open>wf_world\<close>: the
  registry only points to arrays that have been created.
\<close>

definition grows :: "'s world \<Rightarrow> 't world \<Rightarrow> bool" where
  "grows w w' \<longleftrightarrow> fresh w \<le> fresh w' \<and> (\<forall>a < fresh w. prefix (arrays w a) (arrays w' a))"

definition wf_world :: "'s world \<Rightarrow> bool" where
  "wf_world w \<longleftrightarrow> (\<forall>e a. eventListeners w e = Some a \<longrightarrow> a < fresh w)"

text \<open>
  The dispatch of the specification: it takes a copy of the listeners of the event when
  it starts, and calls the callbacks of the copy in order.  Only the outermost loop is
  replaced: the callbacks run as in \<open>dispatch\<close>.
\<close>

primrec invoke_all ::
  "(hid \<Rightarrow> 's world \<Rightarrow> 's res option) \<Rightarrow> hid list \<Rightarrow> 's world \<Rightarrow> 's dres option" where
  "invoke_all callbackfn [] w = Some (Inr (w, []))"
| "invoke_all callbackfn (cb # cbs) w =
     (case callbackfn cb w of
        None \<Rightarrow> None
      | Some (Inl (x, w')) \<Rightarrow> Some (Inl (x, w', [cb]))
      | Some (Inr w') \<Rightarrow> called cb (invoke_all callbackfn cbs w'))"

definition dispatch_snapshot ::
  "nat \<Rightarrow> (hid \<Rightarrow> payload \<Rightarrow> 's prog) \<Rightarrow> event \<Rightarrow> payload \<Rightarrow> 's world \<Rightarrow> 's dres option" where
  "dispatch_snapshot n H event payload w =
     (case n of
        0 \<Rightarrow> None
      | Suc m \<Rightarrow> invoke_all (\<lambda>callback. exec (dispatch m H) (H callback payload))
                  (listeners_of w event) w)"


definition lines_of :: "string \<Rightarrow> IProductCard list \<Rightarrow> IProductCard list" where
  "lines_of x lines = filter (\<lambda>item. id' (product item) = x) lines"


definition with_basket :: "IProductCard list \<Rightarrow> app \<Rightarrow> app" where
  "with_basket lines s = s\<lparr>catalogController := (catalogController s)\<lparr>basket := lines\<rparr>\<rparr>"


subsection \<open>Concrete inputs\<close>

definition example_handlers :: "hid \<Rightarrow> payload \<Rightarrow> unit prog" where
  "example_handlers h p =
     (if h = 10 then Unsubscribe ProductView 11 (Subscribe ProductView 12 Return)
      else if h = 13 then Throw ''boom''
      else Return)"

definition example_world :: "unit world" where
  "example_world = subscribe ProductView 11 (subscribe ProductView 10 (new_world ()))"

definition throwing_world :: "unit world" where
  "throwing_world = subscribe OrderInit 22 (subscribe OrderInit 13 (subscribe OrderInit 21 (new_world ())))"

definition widget :: IProduct where
  "widget = \<lparr>id' = ''p1'', description = '''', image = '''', title = ''Widget'', category = '''',
             price = Some 10\<rparr>"

definition widget_line :: "int \<Rightarrow> IProductCard" where
  "widget_line n = \<lparr>product = widget, buttonText = None, itemCount = n\<rparr>"

definition example_view :: "(string, string) BaseView" where
  "example_view =
     \<lparr>element = '''', state = [''title'' \<mapsto> ''Widget'', ''price'' \<mapsto> ''10''], rendered = []\<rparr>"

definition example_render :: "(string, string) BaseView \<Rightarrow> string" where
  "example_render this = (case state this ''price'' of None \<Rightarrow> ''-'' | Some x \<Rightarrow> x)"

section \<open>The store of listener arrays\<close>

text \<open>
  Whatever a callback does, it reaches the arrays through \<open>subscribe\<close>, \<open>unsubscribe\<close>
  and \<open>dispatch\<close> alone (\<open>eventListeners\<close> is private).  None of them removes or
  replaces an element of an existing array, and none of them lets the registry point
  to an array that was not created.
\<close>

lemma grows_refl: "grows w w"
  by (simp add: grows_def)

lemma grows_trans: "grows w1 w2 \<Longrightarrow> grows w2 w3 \<Longrightarrow> grows w1 w3"
  unfolding grows_def by (meson order_trans prefix_order.order_trans less_le_trans)

lemma grows_env: "grows w (w\<lparr>env := s\<rparr>)"
  by (simp add: grows_def)

lemma grows_subscribe: "grows w (subscribe e h w)"
  by (auto simp: grows_def subscribe_def new_array_def push_def Let_def split: option.splits)

lemma grows_unsubscribe: "grows w (unsubscribe e h w)"
  by (auto simp: grows_def unsubscribe_def new_array_def Let_def split: option.splits)

lemma wf_new_world: "wf_world (new_world s)"
  by (simp add: wf_world_def new_world_def)

lemma wf_subscribe: "wf_world w \<Longrightarrow> wf_world (subscribe e h w)"
  by (auto simp: wf_world_def subscribe_def new_array_def push_def Let_def less_Suc_eq split: option.splits if_splits)

lemma wf_unsubscribe: "wf_world w \<Longrightarrow> wf_world (unsubscribe e h w)"
  by (auto simp: wf_world_def unsubscribe_def new_array_def Let_def less_Suc_eq split: option.splits if_splits)

lemma wf_env: "wf_world (w\<lparr>env := s\<rparr>) = wf_world w"
  by (simp add: wf_world_def)

lemma called_world: "called cb r = Some r' \<Longrightarrow> \<exists>r0. r = Some r0 \<and> dworld r' = dworld r0"
  by (auto simp: called_def dworld_def split: option.splits sum.splits)

lemma forEach_inv:
  assumes C: "\<And>cb w r. P w \<Longrightarrow> C cb w = Some r \<Longrightarrow> P (rworld r) \<and> grows w (rworld r)"
  shows "P w \<Longrightarrow> forEach C a k n w = Some r \<Longrightarrow> P (dworld r) \<and> grows w (dworld r)"
proof (induction n arbitrary: k w r)
  case 0
  then show ?case by (auto simp: dworld_def grows_refl)
next
  case (Suc n)
  show ?case
  proof (cases "k < length (arrays w a)")
    case False
    with Suc show ?thesis by simp
  next
    case True
    with Suc.prems obtain r1 where r1: "C (arrays w a ! k) w = Some r1"
      by (auto split: option.splits)
    from C[OF Suc.prems(1) r1] have P1: "P (rworld r1)" and g1: "grows w (rworld r1)" by auto
    show ?thesis
    proof (cases r1)
      case (Inl xw)
      with Suc.prems True r1 P1 g1 show ?thesis
        by (auto simp: dworld_def rworld_def split: prod.splits)
    next
      case (Inr w1)
      with Suc.prems True r1 have "called (arrays w a ! k) (forEach C a (Suc k) n w1) = Some r"
        by simp
      then obtain r0 where r0: "forEach C a (Suc k) n w1 = Some r0" "dworld r = dworld r0"
        by (auto dest: called_world)
      from P1 Inr have "P w1" by (simp add: rworld_def)
      from Suc.IH[OF this r0(1)] g1 Inr r0(2) show ?thesis
        by (auto simp: rworld_def intro: grows_trans)
    qed
  qed
qed

lemma exec_inv:
  assumes D: "\<And>e p w r. P w \<Longrightarrow> D e p w = Some r \<Longrightarrow> P (dworld r) \<and> grows w (dworld r)"
    and P_env: "\<And>w s. P w \<Longrightarrow> P (w\<lparr>env := s\<rparr>)"
    and P_sub: "\<And>w e h. P w \<Longrightarrow> P (subscribe e h w)"
    and P_unsub: "\<And>w e h. P w \<Longrightarrow> P (unsubscribe e h w)"
  shows "P w \<Longrightarrow> exec D c w = Some r \<Longrightarrow> P (rworld r) \<and> grows w (rworld r)"
proof (induction c arbitrary: w r)
  case Return
  then show ?case by (auto simp: rworld_def grows_refl)
next
  case (Throw x)
  then show ?case by (auto simp: rworld_def grows_refl)
next
  case (Get f)
  from Get.IH[of "f (env w)" w r] Get.prems show ?case by (simp add: rangeI)
next
  case (Put s c)
  from Put.IH[of "w\<lparr>env := s\<rparr>" r] Put.prems P_env[of w s] show ?case
    by (auto intro: grows_trans[OF grows_env])
next
  case (Subscribe e h c)
  from Subscribe.IH[of "subscribe e h w" r] Subscribe.prems P_sub[of w e h] show ?case
    by (auto intro: grows_trans[OF grows_subscribe])
next
  case (Unsubscribe e h c)
  from Unsubscribe.IH[of "unsubscribe e h w" r] Unsubscribe.prems P_unsub[of w e h] show ?case
    by (auto intro: grows_trans[OF grows_unsubscribe])
next
  case (Dispatch e p c)
  from Dispatch.prems obtain r1 where r1: "D e p w = Some r1" by (auto split: option.splits)
  from D[OF Dispatch.prems(1) r1] have P1: "P (dworld r1)" and g1: "grows w (dworld r1)" by auto
  show ?case
  proof (cases r1)
    case (Inl t)
    with Dispatch.prems r1 P1 g1 show ?thesis
      by (auto simp: dworld_def rworld_def split: prod.splits)
  next
    case (Inr t)
    obtain w1 cs where t: "t = (w1, cs)" by (cases t)
    with Inr Dispatch.prems r1 have "exec D c w1 = Some r" by simp
    moreover from P1 Inr t have "P w1" by (simp add: dworld_def)
    ultimately have "P (rworld r) \<and> grows w1 (rworld r)" using Dispatch.IH by blast
    with g1 Inr t show ?thesis by (auto simp: dworld_def intro: grows_trans)
  qed
qed

lemma dispatch_inv:
  assumes P_env: "\<And>w s. P w \<Longrightarrow> P (w\<lparr>env := s\<rparr>)"
    and P_sub: "\<And>w e h. P w \<Longrightarrow> P (subscribe e h w)"
    and P_unsub: "\<And>w e h. P w \<Longrightarrow> P (unsubscribe e h w)"
  shows "P w \<Longrightarrow> dispatch n H e p w = Some r \<Longrightarrow> P (dworld r) \<and> grows w (dworld r)"
proof (induction n arbitrary: e p w r)
  case 0
  then show ?case by simp
next
  case (Suc n)
  have cb: "\<And>cb w r. P w \<Longrightarrow> exec (dispatch n H) (H cb p) w = Some r
              \<Longrightarrow> P (rworld r) \<and> grows w (rworld r)"
  proof -
    fix cb w r
    assume "P w" and "exec (dispatch n H) (H cb p) w = Some r"
    then show "P (rworld r) \<and> grows w (rworld r)"
    proof (rule exec_inv[where P = P and D = "dispatch n H", rotated 4])
      show "\<And>e p w r. P w \<Longrightarrow> dispatch n H e p w = Some r \<Longrightarrow> P (dworld r) \<and> grows w (dworld r)"
        by (rule Suc.IH)
    qed (fact P_env P_sub P_unsub)+
  qed
  show ?case
  proof (cases "eventListeners w e")
    case None
    with Suc.prems show ?thesis by (auto simp: dworld_def grows_refl)
  next
    case (Some a)
    with Suc.prems have
      "forEach (\<lambda>callback. exec (dispatch n H) (H callback p)) a 0 (length (arrays w a)) w = Some r"
      by simp
    from forEach_inv[where P = P and C = "\<lambda>callback. exec (dispatch n H) (H callback p)",
        OF cb Suc.prems(1) this]
    show ?thesis .
  qed
qed

lemma dispatch_grows: "dispatch n H e p w = Some r \<Longrightarrow> grows w (dworld r)"
  using dispatch_inv[where P = "\<lambda>_. True"] by blast

lemma exec_dispatch_grows: "exec (dispatch n H) c w = Some r \<Longrightarrow> grows w (rworld r)"
  using exec_inv[where P = "\<lambda>_. True" and D = "dispatch n H"] dispatch_grows by blast

lemma dispatch_wf: "wf_world w \<Longrightarrow> dispatch n H e p w = Some r \<Longrightarrow> wf_world (dworld r)"
proof -
  assume w: "wf_world w" and r: "dispatch n H e p w = Some r"
  have "wf_world (dworld r) \<and> grows w (dworld r)"
  proof (rule dispatch_inv[where P = wf_world, OF _ _ _ w r])
    show "\<And>w s. wf_world w \<Longrightarrow> wf_world (w\<lparr>env := s\<rparr>)" by (simp add: wf_env)
  qed (fact wf_subscribe wf_unsubscribe)+
  then show ?thesis by simp
qed

section \<open>Fuel\<close>

text \<open>
  The fuel only cuts off the runs that nest dispatches too deep: a dispatch that comes
  back with some fuel comes back with the same result with any larger fuel.
\<close>

lemma forEach_mono:
  assumes C: "\<And>cb w r. C cb w = Some r \<Longrightarrow> C' cb w = Some r"
  shows "forEach C a k n w = Some r \<Longrightarrow> forEach C' a k n w = Some r"
proof (induction n arbitrary: k w r)
  case 0
  then show ?case by simp
next
  case (Suc n)
  show ?case
  proof (cases "k < length (arrays w a)")
    case False
    with Suc show ?thesis by simp
  next
    case True
    with Suc.prems obtain r1 where r1: "C (arrays w a ! k) w = Some r1"
      by (auto split: option.splits)
    then have r1': "C' (arrays w a ! k) w = Some r1" by (rule C)
    show ?thesis
    proof (cases r1)
      case (Inl t)
      with Suc.prems True r1 r1' show ?thesis by (auto split: prod.splits)
    next
      case (Inr w1)
      with Suc.prems True r1 have c: "called (arrays w a ! k) (forEach C a (Suc k) n w1) = Some r"
        by simp
      then obtain r0 where r0: "forEach C a (Suc k) n w1 = Some r0"
        by (auto simp: called_def split: option.splits)
      from Suc.IH[OF r0] c r0 True r1' Inr show ?thesis by simp
    qed
  qed
qed

lemma exec_mono:
  assumes D: "\<And>e p w r. D e p w = Some r \<Longrightarrow> D' e p w = Some r"
  shows "exec D c w = Some r \<Longrightarrow> exec D' c w = Some r"
proof (induction c arbitrary: w r)
  case (Get f)
  from Get.IH[of "f (env w)" w r] Get.prems show ?case by (simp add: rangeI)
next
  case (Dispatch e p c)
  from Dispatch.prems obtain r1 where r1: "D e p w = Some r1" by (auto split: option.splits)
  then have r1': "D' e p w = Some r1" by (rule D)
  show ?case
  proof (cases r1)
    case (Inl t)
    with Dispatch.prems r1 r1' show ?thesis by (auto split: prod.splits)
  next
    case (Inr t)
    with Dispatch.prems r1 r1' Dispatch.IH show ?thesis by (auto split: prod.splits)
  qed
qed simp_all

lemma dispatch_Suc: "dispatch n H e p w = Some r \<Longrightarrow> dispatch (Suc n) H e p w = Some r"
proof (induction n arbitrary: e p w r)
  case 0
  then show ?case by simp
next
  case (Suc n)
  show ?case
  proof (cases "eventListeners w e")
    case None
    with Suc.prems show ?thesis by simp
  next
    case (Some a)
    with Suc.prems have
      "forEach (\<lambda>callback. exec (dispatch n H) (H callback p)) a 0 (length (arrays w a)) w = Some r"
      by simp
    then have
      "forEach (\<lambda>callback. exec (dispatch (Suc n) H) (H callback p)) a 0 (length (arrays w a)) w = Some r"
    proof (rule forEach_mono[rotated])
      fix cb w' r'
      assume "exec (dispatch n H) (H cb p) w' = Some r'"
      then show "exec (dispatch (Suc n) H) (H cb p) w' = Some r'"
        by (rule exec_mono[rotated]) (rule Suc.IH)
    qed
    with Some show ?thesis by (simp del: dispatch.simps add: dispatch.simps(2)[of "Suc n"])
  qed
qed

lemma dispatch_more_fuel:
  "dispatch n H e p w = Some r \<Longrightarrow> n \<le> m \<Longrightarrow> dispatch m H e p w = Some r"
  by (induction m) (auto simp: le_Suc_eq dest: dispatch_Suc simp del: dispatch.simps)

section \<open>The loop of a dispatch runs over the listeners it found\<close>

text \<open>
  \<open>forEach\<close> reads the array again at every index, but the array it iterates can
  only have grown behind the length read at the start: the loop calls the elements the
  array had when the loop began.
\<close>

lemma forEach_snapshot:
  assumes C: "\<And>cb w r. C cb w = Some r \<Longrightarrow> grows w (rworld r)"
    and a: "a < fresh w0"
  shows "grows w0 w \<Longrightarrow> k + n \<le> length (arrays w0 a)
    \<Longrightarrow> forEach C a k n w = invoke_all C (take n (drop k (arrays w0 a))) w"
proof (induction n arbitrary: k w)
  case 0
  then show ?case by simp
next
  case (Suc n)
  from Suc.prems(1) a have pre: "prefix (arrays w0 a) (arrays w a)"
    by (simp add: grows_def)
  from Suc.prems(2) have k: "k < length (arrays w0 a)" by simp
  with pre have k': "k < length (arrays w a)" and nth: "arrays w a ! k = arrays w0 a ! k"
    by (auto simp: prefix_def nth_append)
  from k have tk: "take (Suc n) (drop k (arrays w0 a)) = arrays w0 a ! k # take n (drop (Suc k) (arrays w0 a))"
    by (simp add: Cons_nth_drop_Suc[symmetric])
  show ?case
  proof (cases "C (arrays w0 a ! k) w")
    case None
    with k' nth tk show ?thesis by simp
  next
    case (Some r1)
    show ?thesis
    proof (cases r1)
      case (Inl t)
      with Some k' nth tk show ?thesis by (simp split: prod.splits)
    next
      case (Inr w1)
      from C[OF Some] Inr have "grows w w1" by (simp add: rworld_def)
      with Suc.prems(1) have "grows w0 w1" by (rule grows_trans)
      from Suc.IH[OF this, of "Suc k"] Suc.prems(2)
      have "forEach C a (Suc k) n w1 = invoke_all C (take n (drop (Suc k) (arrays w0 a))) w1"
        by simp
      with Some Inr k' nth tk show ?thesis by simp
    qed
  qed
qed

lemma dispatch_eq_invoke_all:
  assumes "eventListeners w e = Some a" and "a < fresh w"
  shows "dispatch (Suc n) H e p w =
    invoke_all (\<lambda>callback. exec (dispatch n H) (H callback p)) (arrays w a) w"
  using forEach_snapshot[where C = "\<lambda>callback. exec (dispatch n H) (H callback p)"
      and ?w0.0 = w and w = w and a = a and k = 0 and n = "length (arrays w a)"] assms
  by (simp add: exec_dispatch_grows grows_refl)

lemma dispatch_eq_snapshot:
  assumes "wf_world w"
  shows "dispatch n H e p w = dispatch_snapshot n H e p w"
proof (cases n)
  case 0
  then show ?thesis by (simp add: dispatch_snapshot_def)
next
  case (Suc m)
  show ?thesis
  proof (cases "eventListeners w e")
    case None
    with Suc show ?thesis by (simp add: dispatch_snapshot_def listeners_of_def)
  next
    case (Some a)
    with assms have "a < fresh w" by (simp add: wf_world_def)
    from dispatch_eq_invoke_all[OF Some this] Suc Some show ?thesis
      by (simp add: dispatch_snapshot_def listeners_of_def)
  qed
qed

lemma invoke_all_invoked:
  "invoke_all C cbs w = Some r \<Longrightarrow>
     prefix (invoked r) cbs \<and> (case r of Inl _ \<Rightarrow> invoked r \<noteq> [] | Inr _ \<Rightarrow> invoked r = cbs)"
proof (induction cbs arbitrary: w r)
  case Nil
  then show ?case by (auto simp: invoked_def)
next
  case (Cons cb cbs)
  show ?case
  proof (cases "C cb w")
    case None
    with Cons.prems show ?thesis by simp
  next
    case (Some r1)
    show ?thesis
    proof (cases r1)
      case (Inl t)
      with Some Cons.prems show ?thesis by (auto simp: invoked_def split: prod.splits)
    next
      case (Inr w1)
      with Some Cons.prems have c: "called cb (invoke_all C cbs w1) = Some r" by simp
      then obtain r0 where r0: "invoke_all C cbs w1 = Some r0"
        by (auto simp: called_def split: option.splits)
      from Cons.IH[OF r0] c r0 show ?thesis
        by (auto simp: called_def invoked_def split: sum.splits prod.splits)
    qed
  qed
qed

lemma invoke_all_throw:
  "invoke_all C xs w = Some (Inr (w1, cs)) \<Longrightarrow> C y w1 = Some (Inl (x, w2)) \<Longrightarrow>
     invoke_all C (xs @ y # ys) w = Some (Inl (x, w2, xs @ [y]))"
proof (induction xs arbitrary: w cs)
  case Nil
  then show ?case by simp
next
  case (Cons z zs)
  from Cons.prems(1) obtain r1 where r1: "C z w = Some r1" by (auto split: option.splits)
  show ?case
  proof (cases r1)
    case (Inl t)
    with r1 Cons.prems(1) show ?thesis by (auto split: prod.splits)
  next
    case (Inr w')
    with r1 Cons.prems(1) have "called z (invoke_all C zs w') = Some (Inr (w1, cs))" by simp
    then obtain cs' where "invoke_all C zs w' = Some (Inr (w1, cs'))"
      by (auto simp: called_def split: option.splits sum.splits prod.splits)
    from Cons.IH[OF this Cons.prems(2)] r1 Inr show ?thesis by (simp add: called_def)
  qed
qed




lemma subscribe_defined: "eventListeners (subscribe e h w) e \<noteq> None"
  by (auto simp: subscribe_def new_array_def push_def Let_def split: option.splits)

lemma unsubscribe_defined:
  assumes "eventListeners w e = Some a"
  shows "eventListeners (unsubscribe e h w) e = Some (fresh w)"
    and "fresh (unsubscribe e h w) = Suc (fresh w)"
    and "arrays (unsubscribe e h w) (fresh w) = filter (\<lambda>cb. cb \<noteq> h) (arrays w a)"
  using assms by (simp_all add: unsubscribe_def new_array_def)

lemmas bus_eval = subscribe_def unsubscribe_def new_array_def push_def new_world_def Let_def
  listeners_of_def called_def

lemma wf_example_world: "wf_world example_world"
  by (simp add: example_world_def wf_subscribe wf_new_world)

section \<open>Properties of the event bus\<close>

text \<open>
  C3.  After \<open>subscribe(e, h)\<close> immediately followed by \<open>unsubscribe(e, h)\<close>, \<open>h\<close>
  is not among the listeners of \<open>e\<close>, and a \<open>dispatch(e, p)\<close> that comes back (by
  return or by exception) has not called \<open>h\<close>, whatever the payload, the other
  listeners and the bodies of the callbacks are.
\<close>

theorem subscribe_unsubscribe_not_invoked:
  "h \<notin> set (listeners_of (unsubscribe e h (subscribe e h w)) e)
   \<and> (\<forall>r. dispatch n H e p (unsubscribe e h (subscribe e h w)) = Some r \<longrightarrow> h \<notin> set (invoked r))"
proof (intro conjI allI impI)
  let ?w1 = "subscribe e h w" and ?w2 = "unsubscribe e h (subscribe e h w)"
  obtain a where a: "eventListeners ?w1 e = Some a"
    using subscribe_defined[of e h w] by auto
  note u = unsubscribe_defined[OF a, of h]
  show "h \<notin> set (listeners_of ?w2 e)"
    by (simp add: listeners_of_def u)
  fix r
  assume r: "dispatch n H e p ?w2 = Some r"
  then obtain m where n: "n = Suc m" by (cases n) auto
  have "dispatch (Suc m) H e p ?w2 =
      invoke_all (\<lambda>callback. exec (dispatch m H) (H callback p)) (arrays ?w2 (fresh ?w1)) ?w2"
    by (rule dispatch_eq_invoke_all) (simp_all add: u)
  with r n have "prefix (invoked r) (filter (\<lambda>cb. cb \<noteq> h) (arrays ?w1 a))"
    using invoke_all_invoked[of _ "arrays ?w2 (fresh ?w1)" ?w2 r] by (simp add: u)
  then have "set (invoked r) \<subseteq> set (filter (\<lambda>cb. cb \<noteq> h) (arrays ?w1 a))"
    by (rule set_mono_prefix)
  then show "h \<notin> set (invoked r)" by auto
qed

text \<open>
  An instance: callback 14 is registered, 11 is subscribed and unsubscribed at once; the
  dispatch calls 14 alone.
\<close>

theorem subscribe_unsubscribe_not_invoked_witness:
  "dispatch 1 example_handlers ProductView PVoid
      (unsubscribe ProductView 11 (subscribe ProductView 11 (subscribe ProductView 14 (new_world ()))))
     = Some (Inr (unsubscribe ProductView 11 (subscribe ProductView 11 (subscribe ProductView 14 (new_world ()))), [14]))
   \<and> 11 \<notin> set (listeners_of
        (unsubscribe ProductView 11 (subscribe ProductView 11 (subscribe ProductView 14 (new_world () :: unit world))))
        ProductView)
   \<and> 11 \<notin> set (invoked (Inr (unsubscribe ProductView 11 (subscribe ProductView 11 (subscribe ProductView 14 (new_world ()))), [14]) :: unit dres))"
proof -
  let ?w = "unsubscribe ProductView 11 (subscribe ProductView 11 (subscribe ProductView 14 (new_world ())))"
  have d: "dispatch 1 example_handlers ProductView PVoid ?w = Some (Inr (?w, [14]))"
    by (simp add: bus_eval example_handlers_def)
  from subscribe_unsubscribe_not_invoked[where h = 11 and e = ProductView
      and w = "subscribe ProductView 14 (new_world ())" and n = 1 and H = example_handlers and p = PVoid] d
  show ?thesis by simp
qed

text \<open>
  C4.  A dispatch behaves as the dispatch over a copy of the listeners taken when it
  starts: it is equal to \<open>dispatch_snapshot\<close>, and when it returns it has called
  exactly the callbacks that were registered for the event at its start, whatever the
  callbacks subscribed or unsubscribed meanwhile.
\<close>

theorem dispatch_calls_snapshot:
  assumes "wf_world w"
  shows "dispatch n H e p w = dispatch_snapshot n H e p w
       \<and> (\<forall>w' cs. dispatch n H e p w = Some (Inr (w', cs)) \<longrightarrow> cs = listeners_of w e)"
proof (intro conjI allI impI)
  show eq: "dispatch n H e p w = dispatch_snapshot n H e p w"
    using assms by (rule dispatch_eq_snapshot)
  fix w' cs
  assume "dispatch n H e p w = Some (Inr (w', cs))"
  with eq have "dispatch_snapshot n H e p w = Some (Inr (w', cs))" by simp
  then show "cs = listeners_of w e"
    using invoke_all_invoked[of _ "listeners_of w e" w "Inr (w', cs)"]
    by (cases n) (auto simp: dispatch_snapshot_def invoked_def)
qed

text \<open>
  An instance: 10 and 11 are registered; the body of 10 unsubscribes 11 and subscribes
  12.  The dispatch calls 10 and 11, not 12; afterwards the listeners are 10 and 12.
\<close>

theorem dispatch_calls_snapshot_witness:
  "wf_world example_world
   \<and> listeners_of example_world ProductView = [10, 11]
   \<and> dispatch 1 example_handlers ProductView PVoid example_world =
       Some (Inr (subscribe ProductView 12 (unsubscribe ProductView 11 example_world), [10, 11]))
   \<and> listeners_of (subscribe ProductView 12 (unsubscribe ProductView 11 example_world)) ProductView = [10, 12]"
proof -
  have l: "listeners_of example_world ProductView = [10, 11]"
    by (simp add: example_world_def bus_eval)
  have l': "listeners_of (subscribe ProductView 12 (unsubscribe ProductView 11 example_world)) ProductView = [10, 12]"
    by (simp add: example_world_def bus_eval)
  from dispatch_calls_snapshot[OF wf_example_world, of 1 example_handlers ProductView PVoid]
  have "dispatch 1 example_handlers ProductView PVoid example_world =
      dispatch_snapshot 1 example_handlers ProductView PVoid example_world" by simp
  also have "\<dots> = Some (Inr (subscribe ProductView 12 (unsubscribe ProductView 11 example_world), [10, 11]))"
    by (simp add: dispatch_snapshot_def l example_handlers_def called_def)
  finally show ?thesis using l l' wf_example_world by simp
qed



text \<open>
  C6.  When the listeners before index \<open>k\<close> return and the listener at index \<open>k\<close>
  throws \<open>x\<close>, the dispatch throws \<open>x\<close>, in the world the throw left, and has called
  the listeners up to index \<open>k\<close> and no other.
\<close>

theorem throwing_handler_aborts_dispatch:
  assumes "wf_world w"
    and "eventListeners w e = Some a"
    and "k < length (arrays w a)"
    and "forEach (\<lambda>callback. exec (dispatch n H) (H callback p)) a 0 k w = Some (Inr (w1, cs))"
    and "exec (dispatch n H) (H (arrays w a ! k) p) w1 = Some (Inl (x, w2))"
  shows "dispatch (Suc n) H e p w = Some (Inl (x, w2, take (Suc k) (arrays w a)))"
proof -
  let ?C = "\<lambda>callback. exec (dispatch n H) (H callback p)"
  from assms(1,2) have a: "a < fresh w" by (simp add: wf_world_def)
  have "forEach ?C a 0 k w = invoke_all ?C (take k (drop 0 (arrays w a))) w"
    using assms(3) by (intro forEach_snapshot[OF _ a]) (simp_all add: exec_dispatch_grows grows_refl)
  with assms(4) have pre: "invoke_all ?C (take k (arrays w a)) w = Some (Inr (w1, cs))" by simp
  from assms(3) have split: "arrays w a = take k (arrays w a) @ arrays w a ! k # drop (Suc k) (arrays w a)"
    by (simp add: id_take_nth_drop[symmetric])
  have "invoke_all ?C (take k (arrays w a) @ arrays w a ! k # drop (Suc k) (arrays w a)) w
      = Some (Inl (x, w2, take k (arrays w a) @ [arrays w a ! k]))"
    using pre assms(5) by (rule invoke_all_throw)
  with split assms(3) have "invoke_all ?C (arrays w a) w = Some (Inl (x, w2, take (Suc k) (arrays w a)))"
    by (simp add: take_Suc_conv_app_nth)
  with dispatch_eq_invoke_all[OF assms(2) a, of n H p] show ?thesis by simp
qed

text \<open>
  An instance: listeners 21, 13, 22, where 13 throws; the dispatch throws after calling 21
  and 13, and 22 is not called.
\<close>

theorem throwing_handler_aborts_dispatch_witness:
  "wf_world throwing_world
   \<and> eventListeners throwing_world OrderInit = Some 0
   \<and> arrays throwing_world 0 = [21, 13, 22]
   \<and> forEach (\<lambda>callback. exec (dispatch 0 example_handlers) (example_handlers callback PVoid)) 0 0 1
        throwing_world = Some (Inr (throwing_world, [21]))
   \<and> exec (dispatch 0 example_handlers) (example_handlers 13 PVoid) throwing_world
        = Some (Inl (''boom'', throwing_world))
   \<and> dispatch 1 example_handlers OrderInit PVoid throwing_world
        = Some (Inl (''boom'', throwing_world, [21, 13]))"
proof -
  have wf: "wf_world throwing_world"
    by (simp add: throwing_world_def wf_subscribe wf_new_world)
  have a: "eventListeners throwing_world OrderInit = Some 0"
    and xs: "arrays throwing_world 0 = [21, 13, 22]"
    by (simp_all add: throwing_world_def bus_eval)
  have k: "1 < length (arrays throwing_world 0)" by (simp add: xs)
  have pre: "forEach (\<lambda>callback. exec (dispatch 0 example_handlers) (example_handlers callback PVoid)) 0 0 1
        throwing_world = Some (Inr (throwing_world, [21]))"
    by (simp add: xs example_handlers_def called_def)
  have thr: "exec (dispatch 0 example_handlers) (example_handlers (arrays throwing_world 0 ! 1) PVoid) throwing_world
        = Some (Inl (''boom'', throwing_world))"
    by (simp add: xs example_handlers_def)
  from throwing_handler_aborts_dispatch[OF wf a k pre thr] wf a xs pre thr show ?thesis
    by (simp add: numeral_2_eq_2)
qed

text \<open>
  C10.  Dispatching an event whose entry in \<open>eventListeners\<close> is still undefined
  (nothing was ever subscribed to it) returns, calls no callback and leaves the world,
  the registry included, as it was.
\<close>

theorem dispatch_without_listeners:
  assumes "eventListeners w e = None"
  shows "dispatch (Suc n) H e p w = Some (Inr (w, []))"
  using assms by simp

text \<open>An instance: a bus with one listener, for another event.\<close>

theorem dispatch_without_listeners_witness:
  "eventListeners (subscribe ProductAdd 14 (new_world ())) ProductView = None
   \<and> dispatch 1 example_handlers ProductView PVoid (subscribe ProductAdd 14 (new_world ()))
       = Some (Inr (subscribe ProductAdd 14 (new_world ()), []))"
proof -
  have n: "eventListeners (subscribe ProductAdd 14 (new_world () :: unit world)) ProductView = None"
    by (simp add: bus_eval)
  from dispatch_without_listeners[OF n, of 0 example_handlers PVoid] n show ?thesis by simp
qed

section \<open>The program after start-up\<close>

text \<open>
  The registry of \<open>boot\<close>, and what a dispatch of each event does there.  No callback
  of the controllers changes the registry, so every world the program reaches is
  \<open>boot\<close> with another state of the controllers.
\<close>

lemma boot_simps:
  "eventListeners boot = [ProductAdd \<mapsto> 0, ProductRemove \<mapsto> 1, BasketUpdate \<mapsto> 2, OrderInit \<mapsto> 3, OrderSubmit \<mapsto> 4]"
  "arrays boot 0 = [cb_addToBasket]"
  "arrays boot (Suc 0) = [cb_removeFromBasket]"
  "arrays boot 2 = [cb_updateBasket]"
  "arrays boot 3 = [cb_initOrder, cb_setOrderDetails]"
  "arrays boot 4 = [cb_submitOrder]"
  "fresh boot = 5"
  by (auto simp: boot_def new_OrderController_def new_CatalogController_def
      OrderController_subscribeToEvents_def CatalogController_subscribeToEvents_def
      subscribe_def new_array_def push_def new_world_def Let_def fun_eq_iff)

lemma boot_env_simps:
  "eventListeners boot ProductAdd = Some 0"
  "eventListeners boot ProductRemove = Some 1"
  "eventListeners boot BasketUpdate = Some 2"
  "eventListeners boot OrderInit = Some 3"
  "eventListeners boot OrderSubmit = Some 4"
  "eventListeners boot ProductView = None"
  "eventListeners boot ModalClose = None"
  by (simp_all add: boot_simps)

lemma env_boot:
  "env boot = \<lparr>catalogController = \<lparr>products = [], basket = []\<rparr>,
               orderController = \<lparr>orderDetails = None, contactInfo = None\<rparr>, console = []\<rparr>"
  by (simp add: boot_def new_OrderController_def new_CatalogController_def
      OrderController_subscribeToEvents_def CatalogController_subscribeToEvents_def
      subscribe_def new_array_def push_def new_world_def Let_def)


lemma boot_env_inj [simp]: "(boot\<lparr>env := t\<rparr> = boot\<lparr>env := s'\<rparr>) = (t = s')"
proof
  assume "boot\<lparr>env := t\<rparr> = boot\<lparr>env := s'\<rparr>"
  then have "env (boot\<lparr>env := t\<rparr>) = env (boot\<lparr>env := s'\<rparr>)" by (rule arg_cong)
  then show "t = s'" by simp
qed simp

lemma dispatch_BasketUpdate:
  "dispatch (Suc n) handlers BasketUpdate (PBasket items) (boot\<lparr>env := s\<rparr>) =
     Some (Inr (boot\<lparr>env := s\<lparr>catalogController := (catalogController s)\<lparr>basket := items\<rparr>\<rparr>\<rparr>,
                [cb_updateBasket]))"
  by (simp add: boot_simps(2-) boot_env_simps handlers_def updateBasket_def called_def)

lemma dispatch_ProductAdd:
  "dispatch (Suc (Suc n)) handlers ProductAdd (PProduct p) (boot\<lparr>env := s\<rparr>) =
     Some (Inr (boot\<lparr>env := s\<lparr>catalogController :=
                  (catalogController s)\<lparr>basket := addToBasket_lines p (basket (catalogController s))\<rparr>\<rparr>\<rparr>,
                [cb_addToBasket]))"
  by (simp add: boot_simps(2-) boot_env_simps handlers_def addToBasket_def updateBasket_def called_def Let_def
      del: dispatch.simps add: dispatch.simps(2)[of "Suc n"] dispatch_BasketUpdate)


lemma dispatch_OrderInit:
  "dispatch (Suc n) handlers OrderInit (POrderDetails d) (boot\<lparr>env := s\<rparr>) =
     Some (Inr (boot\<lparr>env := s\<lparr>console := console s @ [d],
                               orderController := (orderController s)\<lparr>orderDetails := Some d\<rparr>\<rparr>\<rparr>,
                [cb_initOrder, cb_setOrderDetails]))"
  by (simp add: boot_simps(2-) boot_env_simps handlers_def initOrder_def setOrderDetails_def called_def)

lemma dispatch_OrderSubmit:
  "dispatch (Suc n) handlers OrderSubmit (PContactInfo c) (boot\<lparr>env := s\<rparr>) =
     Some (Inr (boot\<lparr>env := s\<lparr>orderController := (orderController s)\<lparr>contactInfo := Some c\<rparr>\<rparr>\<rparr>,
                [cb_submitOrder]))"
  by (simp add: boot_simps(2-) boot_env_simps handlers_def submitOrder_def called_def Let_def)

section \<open>Properties of the basket\<close>

lemma find_None_lines_of:
  "find (\<lambda>item. id' (product item) = x) lines = None \<longleftrightarrow> lines_of x lines = []"
  by (auto simp: find_None_iff lines_of_def filter_empty_conv)

lemma lines_of_increment_first:
  "lines_of x (increment_first (\<lambda>item. id' (product item) = x) lines) =
     (case lines_of x lines of [] \<Rightarrow> [] | l # ls \<Rightarrow> l\<lparr>itemCount := itemCount l + 1\<rparr> # ls)"
  by (induction lines) (auto simp: lines_of_def)


lemma lines_of_add_absent:
  "lines_of (id' q) lines = [] \<Longrightarrow>
     lines_of (id' q) (addToBasket_lines q lines) = [\<lparr>product = q, buttonText = None, itemCount = 1\<rparr>]"
  by (simp add: addToBasket_lines_def find_None_lines_of[symmetric]) (simp add: find_None_lines_of lines_of_def)

lemma lines_of_add_present:
  "lines_of (id' q) lines = [l] \<Longrightarrow>
     lines_of (id' q) (addToBasket_lines q lines) = [l\<lparr>itemCount := itemCount l + 1\<rparr>]"
proof -
  assume l: "lines_of (id' q) lines = [l]"
  then have "find (\<lambda>item. id' (product item) = id' q) lines \<noteq> None"
    by (simp add: find_None_lines_of)
  then show ?thesis
    using l by (auto simp: addToBasket_lines_def lines_of_increment_first)
qed

lemma lines_of_fold_add:
  "lines_of x lines = [l] \<Longrightarrow> \<forall>q \<in> set ps. id' q = x \<Longrightarrow>
     lines_of x (fold addToBasket_lines ps lines) = [l\<lparr>itemCount := itemCount l + int (length ps)\<rparr>]"
proof (induction ps arbitrary: lines l)
  case Nil
  then show ?case by simp
next
  case (Cons q ps)
  from Cons.prems have "lines_of x (addToBasket_lines q lines) = [l\<lparr>itemCount := itemCount l + 1\<rparr>]"
    using lines_of_add_present[of q lines l] by simp
  from Cons.IH[OF this] Cons.prems(2) show ?case by (simp add: add.assoc)
qed



lemma with_basket_same [simp]: "with_basket (basket (catalogController s)) s = s"
  by (simp add: with_basket_def)

lemma basket_with_basket [simp]: "basket (catalogController (with_basket lines s)) = lines"
  by (simp add: with_basket_def)

lemma with_basket_twice [simp]: "with_basket l2 (with_basket l1 s) = with_basket l2 s"
  by (simp add: with_basket_def)

lemma dispatch_seq_adds:
  "dispatch_seq (Suc (Suc n)) handlers (map (\<lambda>q. (ProductAdd, PProduct q)) ps) (boot\<lparr>env := s\<rparr>) =
     Some (boot\<lparr>env := with_basket (fold addToBasket_lines ps (basket (catalogController s))) s\<rparr>)"
proof (induction ps arbitrary: s)
  case Nil
  show ?case by simp
next
  case (Cons q ps)
  have "dispatch_seq (Suc (Suc n)) handlers (map (\<lambda>q. (ProductAdd, PProduct q)) (q # ps)) (boot\<lparr>env := s\<rparr>) =
      dispatch_seq (Suc (Suc n)) handlers (map (\<lambda>q. (ProductAdd, PProduct q)) ps)
        (boot\<lparr>env := with_basket (addToBasket_lines q (basket (catalogController s))) s\<rparr>)"
    by (simp add: dispatch_ProductAdd with_basket_def del: dispatch.simps)
  then show ?case by (simp add: Cons.IH del: dispatch.simps dispatch_seq.simps)
qed


text \<open>
  C1.  From a basket with no line for the identity \<open>x\<close>, dispatching \<open>product:add\<close>
  once for each product of a non-empty list \<open>ps\<close> of products of identity \<open>x\<close>
  (with fuel for the nested \<open>basket:update\<close>) ends with a basket that has exactly one
  line for \<open>x\<close>: the first product added, with \<open>itemCount\<close> the number of adds.
\<close>

theorem product_add_counts:
  assumes "ps \<noteq> []"
    and "\<forall>q \<in> set ps. id' q = x"
    and "lines_of x (basket (catalogController s)) = []"
  shows "\<exists>s'. dispatch_seq (Suc (Suc n)) handlers (map (\<lambda>q. (ProductAdd, PProduct q)) ps) (boot\<lparr>env := s\<rparr>)
                 = Some (boot\<lparr>env := s'\<rparr>)
              \<and> lines_of x (basket (catalogController s')) =
                  [\<lparr>product = hd ps, buttonText = None, itemCount = int (length ps)\<rparr>]"
proof -
  from assms(1) obtain q qs where ps: "ps = q # qs" by (cases ps) auto
  with assms(2) have q: "id' q = x" and qs: "\<forall>q \<in> set qs. id' q = x" by auto
  let ?b = "basket (catalogController s)"
  from assms(3) q have "lines_of x (addToBasket_lines q ?b) = [\<lparr>product = q, buttonText = None, itemCount = 1\<rparr>]"
    using lines_of_add_absent[of q ?b] by simp
  from lines_of_fold_add[OF this qs]
  have "lines_of x (fold addToBasket_lines ps ?b) =
          [\<lparr>product = hd ps, buttonText = None, itemCount = int (length ps)\<rparr>]"
    by (simp add: ps)
  then show ?thesis
    using dispatch_seq_adds[of n ps s] by (intro exI[of _ "with_basket (fold addToBasket_lines ps ?b) s"]) simp
qed

text \<open>An instance: the product \<open>p1\<close> added twice to the empty basket.\<close>

theorem product_add_counts_witness:
  "[widget, widget] \<noteq> []
   \<and> id' widget = ''p1''
   \<and> lines_of ''p1'' (basket (catalogController (env boot))) = []
   \<and> dispatch_seq 2 handlers [(ProductAdd, PProduct widget), (ProductAdd, PProduct widget)] boot
       = Some (boot\<lparr>env := with_basket [widget_line 2] (env boot)\<rparr>)
   \<and> lines_of ''p1'' (basket (catalogController (with_basket [widget_line 2] (env boot)))) = [widget_line 2]"
proof -
  have e: "lines_of ''p1'' (basket (catalogController (env boot))) = []"
    by (simp add: env_boot lines_of_def)
  have i: "\<forall>q \<in> set [widget, widget]. id' q = ''p1''" by (simp add: widget_def)
  have "[widget, widget] \<noteq> []" by simp
  from product_add_counts[OF this i e, of 0] obtain s' where
    s': "dispatch_seq 2 handlers [(ProductAdd, PProduct widget), (ProductAdd, PProduct widget)] boot
           = Some (boot\<lparr>env := s'\<rparr>)"
    and l: "lines_of ''p1'' (basket (catalogController s')) = [widget_line 2]"
    by (auto simp: numeral_2_eq_2 widget_line_def)
  have f: "fold addToBasket_lines [widget, widget] (basket (catalogController (env boot))) = [widget_line 2]"
    by (simp add: env_boot addToBasket_lines_def widget_line_def)
  have "dispatch_seq (Suc (Suc 0)) handlers (map (\<lambda>q. (ProductAdd, PProduct q)) [widget, widget])
          (boot\<lparr>env := env boot\<rparr>)
       = Some (boot\<lparr>env := with_basket [widget_line 2] (env boot)\<rparr>)"
    unfolding f[symmetric] by (rule dispatch_seq_adds)
  then have "dispatch_seq 2 handlers [(ProductAdd, PProduct widget), (ProductAdd, PProduct widget)] boot
       = Some (boot\<lparr>env := with_basket [widget_line 2] (env boot)\<rparr>)"
    by (simp add: numeral_2_eq_2 del: dispatch.simps dispatch_seq.simps)
  with e show ?thesis
    by (simp add: widget_def lines_of_def widget_line_def)
qed






section \<open>Properties of the order controller\<close>

text \<open>
  C8.  Handling \<open>order:submit\<close> while no order details are recorded stores the contact
  and does not enter the branch that builds \<open>finalOrder\<close>.  After \<open>order:init\<close> then
  \<open>order:submit\<close> the controller holds both payloads, and \<open>finalOrder\<close> has the
  four fields \<open>payment\<close>, \<open>address\<close>, \<open>email\<close>, \<open>phone\<close> with the values of the
  payloads.
\<close>

theorem order_init_then_submit:
  "(orderDetails (orderController s) = None \<longrightarrow>
      dispatch (Suc n) handlers OrderSubmit (PContactInfo c) (boot\<lparr>env := s\<rparr>) =
        Some (Inr (boot\<lparr>env := s\<lparr>orderController := (orderController s)\<lparr>contactInfo := Some c\<rparr>\<rparr>\<rparr>,
                   [cb_submitOrder]))
      \<and> submitOrder_finalOrder ((orderController s)\<lparr>contactInfo := Some c\<rparr>) = None)
   \<and> dispatch_seq (Suc n) handlers [(OrderInit, POrderDetails d), (OrderSubmit, PContactInfo c)]
        (boot\<lparr>env := s\<rparr>) =
     Some (boot\<lparr>env := s\<lparr>console := console s @ [d],
                           orderController := \<lparr>orderDetails = Some d, contactInfo = Some c\<rparr>\<rparr>\<rparr>)
   \<and> submitOrder_finalOrder \<lparr>orderDetails = Some d, contactInfo = Some c\<rparr> =
       Some [''payment'' \<mapsto> payment d, ''address'' \<mapsto> address d,
             ''email'' \<mapsto> email c, ''phone'' \<mapsto> phone c]"
  by (simp add: dispatch_OrderInit dispatch_OrderSubmit submitOrder_finalOrder_def spread_def
      IOrderDetails_props_def IContactInfo_props_def del: dispatch.simps)

text \<open>An instance: the scenario of the specification, on the program after start-up.\<close>

theorem order_init_then_submit_witness:
  "orderDetails (orderController (env boot)) = None
   \<and> dispatch 1 handlers OrderSubmit (PContactInfo \<lparr>email = ''a@b.com'', phone = ''123''\<rparr>) boot
     = Some (Inr (boot\<lparr>env := (env boot)\<lparr>orderController :=
          \<lparr>orderDetails = None, contactInfo = Some \<lparr>email = ''a@b.com'', phone = ''123''\<rparr>\<rparr>\<rparr>\<rparr>,
        [cb_submitOrder]))
   \<and> submitOrder_finalOrder \<lparr>orderDetails = None, contactInfo = Some \<lparr>email = ''a@b.com'', phone = ''123''\<rparr>\<rparr>
     = None
   \<and> dispatch_seq 1 handlers
      [(OrderInit, POrderDetails \<lparr>payment = ''cash'', address = ''Main St''\<rparr>),
       (OrderSubmit, PContactInfo \<lparr>email = ''a@b.com'', phone = ''123''\<rparr>)] boot
     = Some (boot\<lparr>env := (env boot)\<lparr>console := [\<lparr>payment = ''cash'', address = ''Main St''\<rparr>],
          orderController := \<lparr>orderDetails = Some \<lparr>payment = ''cash'', address = ''Main St''\<rparr>,
                               contactInfo = Some \<lparr>email = ''a@b.com'', phone = ''123''\<rparr>\<rparr>\<rparr>\<rparr>)
   \<and> submitOrder_finalOrder \<lparr>orderDetails = Some \<lparr>payment = ''cash'', address = ''Main St''\<rparr>,
                               contactInfo = Some \<lparr>email = ''a@b.com'', phone = ''123''\<rparr>\<rparr>
     = Some [''payment'' \<mapsto> ''cash'', ''address'' \<mapsto> ''Main St'', ''email'' \<mapsto> ''a@b.com'', ''phone'' \<mapsto> ''123'']"
proof -
  have o: "orderController (env boot) = \<lparr>orderDetails = None, contactInfo = None\<rparr>"
    and c: "console (env boot) = []"
    by (simp_all add: env_boot)
  from order_init_then_submit[where n = 0 and c = "\<lparr>email = ''a@b.com'', phone = ''123''\<rparr>"
      and s = "env boot" and d = "\<lparr>payment = ''cash'', address = ''Main St''\<rparr>"]
  show ?thesis
    by (simp add: o c del: dispatch.simps dispatch_seq.simps)
qed

section \<open>Properties of the view base class\<close>

text \<open>
  C9.  \<open>updateState\<close> sets the state to the spread of the old state and the update:
  every field of the update has the update's value, every other field keeps its value.
  It calls \<open>render\<close> once, on the view with the merged state.
\<close>

theorem updateState_merges_and_renders_once:
  "state (updateState R newState this) = spread (state this) newState
   \<and> (\<forall>f \<in> dom newState. state (updateState R newState this) f = newState f)
   \<and> (\<forall>f. f \<notin> dom newState \<longrightarrow> state (updateState R newState this) f = state this f)
   \<and> rendered (updateState R newState this) = rendered this @ [spread (state this) newState]
   \<and> element (updateState R newState this) = R (this\<lparr>state := spread (state this) newState\<rparr>)"
  by (auto simp: updateState_def render_def spread_def map_add_def split: option.splits)

text \<open>An instance: a new price for a view that holds a title and a price.\<close>

theorem updateState_merges_and_renders_once_witness:
  "''price'' \<in> dom [''price'' \<mapsto> ''12'']
   \<and> ''title'' \<notin> dom [''price'' \<mapsto> ''12'']
   \<and> state (updateState example_render [''price'' \<mapsto> ''12''] example_view) ''price'' = Some ''12''
   \<and> state (updateState example_render [''price'' \<mapsto> ''12''] example_view) ''title'' = Some ''Widget''
   \<and> length (rendered (updateState example_render [''price'' \<mapsto> ''12''] example_view)) = 1
   \<and> element (updateState example_render [''price'' \<mapsto> ''12''] example_view) = ''12''"
  using updateState_merges_and_renders_once[of example_render "[''price'' \<mapsto> ''12'']" example_view]
  by (simp add: example_view_def example_render_def spread_def)

end
